theory Spec2Isabelle
  imports Main
begin

section \<open>The synchronized time tracker of the alternative seek bar\<close>

text \<open>
  A shallow embedding of class \<open>SynchronizedTimeTracker\<close> of
  \<open>quodlibet/ext/events/seekbar.py\<close>. Positions, seconds and intervals are Python
  integers, hence \<open>int\<close>; Python's \<open>//\<close> and \<open>%\<close> round towards minus infinity, as
  \<open>div\<close> and \<open>mod\<close> on \<open>int\<close> do. The tracker talks to two collaborators that live
  outside the file, the GLib main loop and the player object; both are modelled below
  as far as the tracker uses them.
\<close>

subsection \<open>The GLib main loop\<close>

text \<open>
  The only exception the tracker can provoke: \<open>GLib.timeout_add\<close> converts its
  interval to an unsigned 32-bit integer and raises \<open>OverflowError\<close> outside that range.
\<close>

datatype error = OverflowError

text \<open>
  A timeout source as the tracker registers it: the callback is always the bound method
  \<open>__run\<close>, so only the source id, the interval and the one user-data argument
  (\<open>last_interval\<close>) are kept.
\<close>

record timeout =
  source :: nat
  interval :: int
  user_data :: int

text \<open>
  The main loop holds the attached timeout sources and the next id to hand out. The
  field \<open>armed\<close> is an observation only: every interval passed to
  \<open>timeout_add\<close> so far, oldest first.
\<close>

record main_loop =
  sources :: "timeout list"
  next_source :: nat
  armed :: "int list"

definition timeout_add :: "int \<Rightarrow> int \<Rightarrow> main_loop \<Rightarrow> error + (nat \<times> main_loop)" where
  "timeout_add iv data l =
     (if iv < 0 \<or> 4294967296 \<le> iv then Inl OverflowError
      else Inr (next_source l,
                l\<lparr>sources := sources l @ [\<lparr>source = next_source l, interval = iv, user_data = data\<rparr>],
                  next_source := Suc (next_source l),
                  armed := armed l @ [iv]\<rparr>))"

text \<open>Removing an id that is not attached only logs a warning inside GLib.\<close>

definition source_remove :: "nat \<Rightarrow> main_loop \<Rightarrow> main_loop" where
  "source_remove sid l = l\<lparr>sources := filter (\<lambda>t. source t \<noteq> sid) (sources l)\<rparr>"

subsection \<open>The player\<close>

datatype signal = Paused | Unpaused | Seek | SongStarted

text \<open>
  Of the player the tracker reads the position (milliseconds) and the pause flag, and
  it connects to four of its signals. \<open>handlers\<close> is the table of connected handlers
  (id and signal; the handler of a signal is fixed by the tracker's constructor).
\<close>

record player =
  position :: int
  paused :: bool
  handlers :: "(nat \<times> signal) list"
  next_handler :: nat

definition connect :: "signal \<Rightarrow> player \<Rightarrow> nat \<times> player" where
  "connect sg p =
     (next_handler p,
      p\<lparr>handlers := handlers p @ [(next_handler p, sg)], next_handler := Suc (next_handler p)\<rparr>)"

text \<open>Disconnecting an id that is not connected only logs a warning inside GObject.\<close>

definition disconnect :: "nat \<Rightarrow> player \<Rightarrow> player" where
  "disconnect hid p = p\<lparr>handlers := filter (\<lambda>h. fst h \<noteq> hid) (handlers p)\<rparr>"

subsection \<open>The tracker\<close>

text \<open>
  \<open>self.offset\<close> and \<open>self.max_delta\<close> are assigned once in the constructor and never
  again.
\<close>

definition offset :: int where
  "offset = 10"

definition max_delta :: int where
  "max_delta = 20"

record tracker =
  source_id :: "nat option"
  tick_prev_sec :: int
  sigs :: "nat list"

text \<open>
  The objects the methods touch, together: the player, the main loop, the tracker, and
  the emissions of the tracker's own signal \<open>tick\<close>. The signal carries no argument;
  each entry of \<open>ticks\<close> records the second (\<open>current_sec\<close>) at which it was emitted,
  oldest first.
\<close>

record world =
  pl :: player
  ml :: main_loop
  tr :: tracker
  ticks :: "int list"

definition song_started :: "world \<Rightarrow> world" where
  "song_started w =
     (if tick_prev_sec (tr w) = 1 then w\<lparr>tr := (tr w)\<lparr>tick_prev_sec := 0\<rparr>\<rparr> else w)"

definition enable :: "world \<Rightarrow> error + world" where
  "enable w =
     (if source_id (tr w) = None then
        (let pos = position (pl w);
             iv = 1000 + offset - (pos mod 1000)
         in case timeout_add iv iv (ml w) of
              Inl e \<Rightarrow> Inl e
            | Inr (sid, l) \<Rightarrow> Inr (w\<lparr>ml := l, tr := (tr w)\<lparr>source_id := Some sid\<rparr>\<rparr>))
      else Inr w)"

definition disable :: "world \<Rightarrow> world" where
  "disable w =
     (case source_id (tr w) of
        None \<Rightarrow> w
      | Some sid \<Rightarrow> w\<lparr>ml := source_remove sid (ml w), tr := (tr w)\<lparr>source_id := None\<rparr>\<rparr>)"

definition restart :: "world \<Rightarrow> error + world" where
  "restart w = enable (disable w)"

definition seek :: "int \<Rightarrow> world \<Rightarrow> error + world" where
  "seek s w =
     (let w1 = w\<lparr>tr := (tr w)\<lparr>tick_prev_sec := s div 1000\<rparr>\<rparr>
      in if \<not> paused (pl w1) then restart w1 else Inr w1)"

text \<open>
  The timeout callback. Its result is what GLib looks at: \<open>True\<close> keeps the source that
  fired, with its interval and its argument; the implicit \<open>None\<close> of the other branch
  counts as false.
\<close>

definition run :: "int \<Rightarrow> world \<Rightarrow> error + (bool \<times> world)" where
  "run last_interval w =
     (let pos = position (pl w);
          current_sec = pos div 1000;
          w1 = (if current_sec \<noteq> tick_prev_sec (tr w) \<and> current_sec \<noteq> 0
                then w\<lparr>tr := (tr w)\<lparr>tick_prev_sec := current_sec\<rparr>,
                       ticks := ticks w @ [current_sec]\<rparr>
                else w);
          iv = 1000 + offset - (pos mod 1000)
      in if \<bar>last_interval - iv\<bar> > max_delta then
           (case timeout_add iv iv (ml w1) of
              Inl e \<Rightarrow> Inl e
            | Inr (sid, l) \<Rightarrow> Inr (False, w1\<lparr>ml := l, tr := (tr w1)\<lparr>source_id := Some sid\<rparr>\<rparr>))
         else Inr (True, w1))"

definition destroy :: "world \<Rightarrow> world" where
  "destroy w = (let w1 = disable w in w1\<lparr>pl := fold disconnect (sigs (tr w1)) (pl w1)\<rparr>)"

definition init :: "player \<Rightarrow> main_loop \<Rightarrow> error + world" where
  "init p l =
     (let (h1, p1) = connect Paused p;
          (h2, p2) = connect Unpaused p1;
          (h3, p3) = connect Seek p2;
          (h4, p4) = connect SongStarted p3;
          w = \<lparr>pl = p4, ml = l,
               tr = \<lparr>source_id = None, tick_prev_sec = 0, sigs = [h1, h2, h3, h4]\<rparr>,
               ticks = []\<rparr>
      in if \<not> paused p then enable w else Inr w)"

subsection \<open>Dispatch by the collaborators\<close>

text \<open>
  The main loop dispatches an attached source by calling its callback with its user
  data, and destroys the source when the callback does not return true.
\<close>

definition dispatch :: "nat \<Rightarrow> world \<Rightarrow> error + world" where
  "dispatch sid w =
     (case find (\<lambda>t. source t = sid) (sources (ml w)) of
        None \<Rightarrow> Inr w
      | Some t \<Rightarrow>
          (case run (user_data t) w of
             Inl e \<Rightarrow> Inl e
           | Inr (keep, w') \<Rightarrow>
               Inr (if keep then w' else w'\<lparr>ml := source_remove sid (ml w')\<rparr>)))"

text \<open>
  The handler the constructor connected to each signal. Only \<open>seek\<close> passes a number
  the handler uses.
\<close>

definition handler :: "signal \<Rightarrow> int \<Rightarrow> world \<Rightarrow> error + world" where
  "handler sg arg w =
     (case sg of
        Paused \<Rightarrow> Inr (disable w)
      | Unpaused \<Rightarrow> enable w
      | Seek \<Rightarrow> seek arg w
      | SongStarted \<Rightarrow> Inr (song_started w))"

fun emit_to :: "(nat \<times> signal) list \<Rightarrow> signal \<Rightarrow> int \<Rightarrow> world \<Rightarrow> error + world" where
  "emit_to [] sg arg w = Inr w"
| "emit_to (h # hs) sg arg w =
     (if snd h = sg then
        (case handler sg arg w of Inl e \<Rightarrow> Inl e | Inr w' \<Rightarrow> emit_to hs sg arg w')
      else emit_to hs sg arg w)"

definition emit :: "signal \<Rightarrow> int \<Rightarrow> world \<Rightarrow> error + world" where
  "emit sg arg w = emit_to (handlers (pl w)) sg arg w"

text \<open>
  Modelled from the spec: the player class is not part of the file. Its events are
  pushed to the subscribers (\<open>paused\<close>, \<open>unpaused\<close>, \<open>seeked(position_ms)\<close>,
  \<open>track_started\<close>), and its pause state is the source of truth that the events mirror,
  so pausing and resuming set the flag and emit the signal. The position is whatever the
  player reports when asked: \<open>Position\<close> lets it take any value at any time, also
  backwards, and \<open>SeekTo\<close> only emits the signal with its target, so that the
  position read during the handler may or may not be the target yet. \<open>Fire\<close> is the
  main loop dispatching a source, \<open>Destroy\<close> the owner calling \<open>destroy()\<close>.
\<close>

datatype event = Pause | Unpause | SeekTo int | SongStart | Position int | Fire nat | Destroy

definition step :: "event \<Rightarrow> world \<Rightarrow> error + world" where
  "step ev w =
     (case ev of
        Pause \<Rightarrow> emit Paused 0 (w\<lparr>pl := (pl w)\<lparr>paused := True\<rparr>\<rparr>)
      | Unpause \<Rightarrow> emit Unpaused 0 (w\<lparr>pl := (pl w)\<lparr>paused := False\<rparr>\<rparr>)
      | SeekTo s \<Rightarrow> emit Seek s w
      | SongStart \<Rightarrow> emit SongStarted 0 w
      | Position p \<Rightarrow> Inr (w\<lparr>pl := (pl w)\<lparr>position := p\<rparr>\<rparr>)
      | Fire sid \<Rightarrow> dispatch sid w
      | Destroy \<Rightarrow> Inr (destroy w))"

fun steps :: "event list \<Rightarrow> world \<Rightarrow> error + world" where
  "steps [] w = Inr w"
| "steps (ev # evs) w = (case step ev w of Inl e \<Rightarrow> Inl e | Inr w' \<Rightarrow> steps evs w')"

text \<open>
  A session: a tracker is constructed on a player at position \<open>pos\<close> with pause flag
  \<open>psd\<close> and a main loop without sources, then the events happen in order.
\<close>

definition new_player :: "int \<Rightarrow> bool \<Rightarrow> player" where
  "new_player pos psd = \<lparr>position = pos, paused = psd, handlers = [], next_handler = 1\<rparr>"

definition new_loop :: main_loop where
  "new_loop = \<lparr>sources = [], next_source = 1, armed = []\<rparr>"

definition session :: "int \<Rightarrow> bool \<Rightarrow> event list \<Rightarrow> error + world" where
  "session pos psd evs =
     (case init (new_player pos psd) new_loop of Inl e \<Rightarrow> Inl e | Inr w \<Rightarrow> steps evs w)"

subsection \<open>Vocabulary of the properties\<close>

text \<open>
  A sequence of firings of the timer callback: the \<open>i\<close>-th firing reads the position
  \<open>p\<close> from the player and is called with the argument \<open>li\<close>.
\<close>

fun firings :: "(int \<times> int) list \<Rightarrow> world \<Rightarrow> error + world" where
  "firings [] w = Inr w"
| "firings ((p, li) # fs) w =
     (case run li (w\<lparr>pl := (pl w)\<lparr>position := p\<rparr>\<rparr>) of
        Inl e \<Rightarrow> Inl e
      | Inr (keep, w') \<Rightarrow> firings fs w')"

text \<open>The handler table the constructor leaves behind on a fresh player.\<close>

definition four :: "(nat \<times> signal) list" where
  "four = [(1, Paused), (2, Unpaused), (3, Seek), (4, SongStarted)]"

text \<open>
  The shape of every world a session reaches: the handlers are all connected or all
  gone, the main loop holds exactly the source the tracker remembers, that source was
  armed with its interval as argument, and it is there exactly while the tracker is
  subscribed to a player that is not paused.
\<close>

definition wf :: "world \<Rightarrow> bool" where
  "wf w \<longleftrightarrow>
     sigs (tr w) = [1, 2, 3, 4] \<and>
     (handlers (pl w) = [] \<or> handlers (pl w) = four) \<and>
     (case source_id (tr w) of
        None \<Rightarrow> sources (ml w) = []
      | Some sid \<Rightarrow>
          sid < next_source (ml w) \<and>
          (\<exists>iv. sources (ml w) = [\<lparr>source = sid, interval = iv, user_data = iv\<rparr>])) \<and>
     (source_id (tr w) \<noteq> None \<longleftrightarrow> handlers (pl w) \<noteq> [] \<and> \<not> paused (pl w)) \<and>
     (\<forall>iv \<in> set (armed (ml w)). 11 \<le> iv \<and> iv \<le> 1010)"

text \<open>No source is attached and none can be armed before the player is resumed.\<close>

definition quiet :: "world \<Rightarrow> bool" where
  "quiet w \<longleftrightarrow>
     source_id (tr w) = None \<and> sources (ml w) = [] \<and> (paused (pl w) \<or> handlers (pl w) = [])"

text \<open>No source is attached and no handler is connected.\<close>

definition detached :: "world \<Rightarrow> bool" where
  "detached w \<longleftrightarrow> source_id (tr w) = None \<and> sources (ml w) = [] \<and> handlers (pl w) = []"

text \<open>
  A world in the middle of playback, for the examples: the player is not paused at
  position \<open>pos\<close>, the source armed by the constructor is attached, and the last ticked
  second is \<open>prev\<close>.
\<close>

definition playing :: "int \<Rightarrow> int \<Rightarrow> world" where
  "playing pos prev =
     \<lparr>pl = \<lparr>position = pos, paused = False, handlers = four, next_handler = 5\<rparr>,
      ml = \<lparr>sources = [\<lparr>source = 1, interval = 1010, user_data = 1010\<rparr>],
            next_source = 2, armed = [1010]\<rparr>,
      tr = \<lparr>source_id = Some 1, tick_prev_sec = prev, sigs = [1, 2, 3, 4]\<rparr>,
      ticks = []\<rparr>"

section \<open>The collaborators never fail\<close>

lemma interval_range: "11 \<le> 1010 - (p::int) mod 1000 \<and> 1010 - p mod 1000 \<le> 1010"
proof -
  have "0 \<le> p mod 1000" and "p mod 1000 < 1000" by simp_all
  then show ?thesis by linarith
qed

lemma timeout_add_interval:
  "timeout_add (1010 - p mod 1000) d l =
     Inr (next_source l,
          l\<lparr>sources := sources l @
                [\<lparr>source = next_source l, interval = 1010 - p mod 1000, user_data = d\<rparr>],
            next_source := Suc (next_source l),
            armed := armed l @ [1010 - p mod 1000]\<rparr>)"
  using interval_range [of p] unfolding timeout_add_def by simp

lemma enable_eq:
  "enable w =
     Inr (if source_id (tr w) = None then
            w\<lparr>ml := (ml w)\<lparr>sources := sources (ml w) @
                       [\<lparr>source = next_source (ml w),
                         interval = 1010 - position (pl w) mod 1000,
                         user_data = 1010 - position (pl w) mod 1000\<rparr>],
                     next_source := Suc (next_source (ml w)),
                     armed := armed (ml w) @ [1010 - position (pl w) mod 1000]\<rparr>,
              tr := (tr w)\<lparr>source_id := Some (next_source (ml w))\<rparr>\<rparr>
          else w)"
  unfolding enable_def Let_def offset_def by (simp add: timeout_add_interval)

lemma run_eq:
  "run li w =
     Inr (\<not> 20 < \<bar>li - (1010 - position (pl w) mod 1000)\<bar>,
          w\<lparr>ml := (if 20 < \<bar>li - (1010 - position (pl w) mod 1000)\<bar>
                    then (ml w)\<lparr>sources := sources (ml w) @
                            [\<lparr>source = next_source (ml w),
                              interval = 1010 - position (pl w) mod 1000,
                              user_data = 1010 - position (pl w) mod 1000\<rparr>],
                          next_source := Suc (next_source (ml w)),
                          armed := armed (ml w) @ [1010 - position (pl w) mod 1000]\<rparr>
                    else ml w),
            tr := (tr w)\<lparr>source_id := (if 20 < \<bar>li - (1010 - position (pl w) mod 1000)\<bar>
                                        then Some (next_source (ml w)) else source_id (tr w)),
                         tick_prev_sec :=
                           (if position (pl w) div 1000 \<noteq> tick_prev_sec (tr w) \<and>
                               position (pl w) div 1000 \<noteq> 0
                            then position (pl w) div 1000 else tick_prev_sec (tr w))\<rparr>,
            ticks := (if position (pl w) div 1000 \<noteq> tick_prev_sec (tr w) \<and>
                         position (pl w) div 1000 \<noteq> 0
                      then ticks w @ [position (pl w) div 1000] else ticks w)\<rparr>)"
  unfolding run_def Let_def offset_def max_delta_def by (simp add: timeout_add_interval)

lemma init_eq:
  "init (new_player pos psd) new_loop =
     Inr \<lparr>pl = \<lparr>position = pos, paused = psd, handlers = four, next_handler = 5\<rparr>,
          ml = (if psd then new_loop
                else \<lparr>sources = [\<lparr>source = 1, interval = 1010 - pos mod 1000,
                                   user_data = 1010 - pos mod 1000\<rparr>],
                      next_source = 2, armed = [1010 - pos mod 1000]\<rparr>),
          tr = \<lparr>source_id = (if psd then None else Some 1), tick_prev_sec = 0,
                 sigs = [1, 2, 3, 4]\<rparr>,
          ticks = []\<rparr>"
  by (simp add: init_def new_player_def new_loop_def connect_def enable_eq Let_def four_def
      eval_nat_numeral)

lemma handler_total: "\<exists>w'. handler sg a w = Inr w'"
  by (cases sg) (simp_all add: handler_def seek_def restart_def enable_eq Let_def)

lemma emit_to_total: "\<exists>w'. emit_to hs sg a w = Inr w'"
proof (induction hs arbitrary: w)
  case Nil
  show ?case by simp
next
  case (Cons h hs)
  obtain w1 where h: "handler sg a w = Inr w1"
    using handler_total by blast
  show ?case using Cons.IH [of w1] Cons.IH [of w] by (simp add: h)
qed

lemma step_total: "\<exists>w'. step ev w = Inr w'"
  by (cases ev)
    (simp_all add: step_def emit_def emit_to_total dispatch_def run_eq split: option.splits)

lemma steps_total: "\<exists>w'. steps evs w = Inr w'"
proof (induction evs arbitrary: w)
  case Nil
  show ?case by simp
next
  case (Cons ev evs)
  obtain w1 where h: "step ev w = Inr w1"
    using step_total by blast
  show ?case using Cons.IH [of w1] by (simp add: h)
qed

lemma steps_append:
  "steps (xs @ ys) w = (case steps xs w of Inl e \<Rightarrow> Inl e | Inr w' \<Rightarrow> steps ys w')"
  by (induction xs arbitrary: w) (simp_all split: sum.splits)

lemma emit_none: "handlers (pl w) = [] \<Longrightarrow> emit sg a w = Inr w"
  by (simp add: emit_def)

lemma emit_four:
  assumes "handlers (pl w) = four"
  shows "emit sg a w = handler sg a w"
proof -
  obtain w1 where h: "handler sg a w = Inr w1"
    using handler_total by blast
  then show ?thesis by (cases sg) (simp_all add: emit_def assms four_def)
qed

section \<open>The worlds a session reaches\<close>

lemma wf_idleI:
  assumes "sigs (tr w) = [1, 2, 3, 4]"
    and "handlers (pl w) = [] \<or> handlers (pl w) = four \<and> paused (pl w)"
    and "source_id (tr w) = None" and "sources (ml w) = []"
    and "\<forall>iv \<in> set (armed (ml w)). 11 \<le> iv \<and> iv \<le> 1010"
  shows "wf w"
  using assms unfolding wf_def by auto

lemma wf_armedI:
  assumes "sigs (tr w) = [1, 2, 3, 4]"
    and "handlers (pl w) = four" and "\<not> paused (pl w)"
    and "source_id (tr w) = Some sid"
    and "sources (ml w) = [\<lparr>source = sid, interval = iv, user_data = iv\<rparr>]"
    and "sid < next_source (ml w)"
    and "\<forall>iv \<in> set (armed (ml w)). 11 \<le> iv \<and> iv \<le> 1010"
  shows "wf w"
  using assms unfolding wf_def by (auto simp: four_def)

lemma wf_cases:
  assumes "wf w"
  obtains (idle) "sigs (tr w) = [1, 2, 3, 4]"
      "handlers (pl w) = [] \<or> handlers (pl w) = four \<and> paused (pl w)"
      "source_id (tr w) = None" "sources (ml w) = []"
      "\<forall>iv \<in> set (armed (ml w)). 11 \<le> iv \<and> iv \<le> 1010"
  | (armed) sid iv where "sigs (tr w) = [1, 2, 3, 4]"
      "handlers (pl w) = four" "\<not> paused (pl w)"
      "source_id (tr w) = Some sid"
      "sources (ml w) = [\<lparr>source = sid, interval = iv, user_data = iv\<rparr>]"
      "sid < next_source (ml w)"
      "\<forall>iv \<in> set (armed (ml w)). 11 \<le> iv \<and> iv \<le> 1010"
proof (cases "source_id (tr w)")
  case None
  with assms idle show ?thesis unfolding wf_def by auto
next
  case (Some sid)
  with assms armed show ?thesis unfolding wf_def by auto
qed

lemma wf_init: "\<exists>w. init (new_player pos psd) new_loop = Inr w \<and> wf w \<and> ticks w = []"
  using interval_range [of pos]
  unfolding init_eq by (simp add: wf_def new_loop_def four_def)

lemma wf_pause:
  assumes "wf w"
  shows "\<exists>w'. step Pause w = Inr w' \<and> wf w' \<and> quiet w' \<and> ticks w' = ticks w \<and>
     (armed (ml w') = armed (ml w) \<and> next_source (ml w') = next_source (ml w) \<and>
        set (sources (ml w')) \<subseteq> set (sources (ml w)) \<or>
      armed (ml w') = armed (ml w) @ [1010 - position (pl w) mod 1000] \<and>
      next_source (ml w') = Suc (next_source (ml w)) \<and>
      source_id (tr w') = Some (next_source (ml w)) \<and>
      sources (ml w') = [\<lparr>source = next_source (ml w),
                          interval = 1010 - position (pl w) mod 1000,
                          user_data = 1010 - position (pl w) mod 1000\<rparr>])"
  using assms
proof (cases rule: wf_cases)
  case idle
  let ?w' = "w\<lparr>pl := (pl w)\<lparr>paused := True\<rparr>\<rparr>"
  have "step Pause w = Inr ?w'"
    using idle(2)
  proof
    assume h: "handlers (pl w) = []"
    show ?thesis by (simp add: step_def emit_none h)
  next
    assume h: "handlers (pl w) = four \<and> paused (pl w)"
    show ?thesis by (simp add: step_def emit_four h handler_def disable_def idle)
  qed
  moreover have "wf ?w'"
    by (rule wf_idleI) (use idle in auto)
  ultimately show ?thesis by (simp add: idle quiet_def)
next
  case (armed sid iv)
  let ?w' = "w\<lparr>pl := (pl w)\<lparr>paused := True\<rparr>, ml := (ml w)\<lparr>sources := []\<rparr>,
               tr := (tr w)\<lparr>source_id := None\<rparr>\<rparr>"
  have "step Pause w = Inr ?w'"
    by (simp add: step_def emit_four armed handler_def disable_def source_remove_def)
  moreover have "wf ?w'"
    by (rule wf_idleI) (simp_all add: armed)
  ultimately show ?thesis by (simp add: quiet_def)
qed

lemma wf_unpause:
  assumes "wf w"
  shows "\<exists>w'. step Unpause w = Inr w' \<and> wf w' \<and> ticks w' = ticks w \<and>
     (armed (ml w') = armed (ml w) \<and> next_source (ml w') = next_source (ml w) \<and>
        set (sources (ml w')) \<subseteq> set (sources (ml w)) \<or>
      armed (ml w') = armed (ml w) @ [1010 - position (pl w) mod 1000] \<and>
      next_source (ml w') = Suc (next_source (ml w)) \<and>
      source_id (tr w') = Some (next_source (ml w)) \<and>
      sources (ml w') = [\<lparr>source = next_source (ml w),
                          interval = 1010 - position (pl w) mod 1000,
                          user_data = 1010 - position (pl w) mod 1000\<rparr>])"
  using assms
proof (cases rule: wf_cases)
  case idle
  from idle(2) show ?thesis
  proof
    assume h: "handlers (pl w) = []"
    let ?w' = "w\<lparr>pl := (pl w)\<lparr>paused := False\<rparr>\<rparr>"
    have "step Unpause w = Inr ?w'"
      by (simp add: step_def emit_none h)
    moreover have "wf ?w'"
      by (rule wf_idleI) (simp_all add: idle h)
    ultimately show ?thesis by simp
  next
    assume h: "handlers (pl w) = four \<and> paused (pl w)"
    let ?iv = "1010 - position (pl w) mod 1000"
    let ?w' = "w\<lparr>pl := (pl w)\<lparr>paused := False\<rparr>,
                ml := (ml w)\<lparr>sources := [\<lparr>source = next_source (ml w), interval = ?iv,
                                              user_data = ?iv\<rparr>],
                          next_source := Suc (next_source (ml w)),
                          armed := armed (ml w) @ [?iv]\<rparr>,
                tr := (tr w)\<lparr>source_id := Some (next_source (ml w))\<rparr>\<rparr>"
    have "step Unpause w = Inr ?w'"
      by (simp add: step_def emit_four h handler_def enable_eq idle)
    moreover have "wf ?w'"
      by (rule wf_armedI [where sid = "next_source (ml w)" and iv = ?iv])
        (use interval_range [of "position (pl w)"] in \<open>simp_all add: idle h\<close>)
    ultimately show ?thesis by simp
  qed
next
  case (armed sid iv)
  let ?w' = "w\<lparr>pl := (pl w)\<lparr>paused := False\<rparr>\<rparr>"
  have "step Unpause w = Inr ?w'"
    by (simp add: step_def emit_four armed handler_def enable_eq)
  moreover have "wf ?w'"
    by (rule wf_armedI [where sid = sid and iv = iv]) (simp_all add: armed)
  ultimately show ?thesis by simp
qed

lemma wf_seek:
  assumes "wf w"
  shows "\<exists>w'. step (SeekTo s) w = Inr w' \<and> wf w' \<and> ticks w' = ticks w \<and>
     (armed (ml w') = armed (ml w) \<and> next_source (ml w') = next_source (ml w) \<and>
        set (sources (ml w')) \<subseteq> set (sources (ml w)) \<or>
      armed (ml w') = armed (ml w) @ [1010 - position (pl w) mod 1000] \<and>
      next_source (ml w') = Suc (next_source (ml w)) \<and>
      source_id (tr w') = Some (next_source (ml w)) \<and>
      sources (ml w') = [\<lparr>source = next_source (ml w),
                          interval = 1010 - position (pl w) mod 1000,
                          user_data = 1010 - position (pl w) mod 1000\<rparr>])"
  using assms
proof (cases rule: wf_cases)
  case idle
  from idle(2) show ?thesis
  proof
    assume h: "handlers (pl w) = []"
    have "step (SeekTo s) w = Inr w"
      by (simp add: step_def emit_none h)
    then show ?thesis using assms by simp
  next
    assume h: "handlers (pl w) = four \<and> paused (pl w)"
    let ?w' = "w\<lparr>tr := (tr w)\<lparr>tick_prev_sec := s div 1000\<rparr>\<rparr>"
    have "step (SeekTo s) w = Inr ?w'"
      by (simp add: step_def emit_four h handler_def seek_def)
    moreover have "wf ?w'"
      by (rule wf_idleI) (simp_all add: idle h)
    ultimately show ?thesis by simp
  qed
next
  case (armed sid iv)
  let ?iv = "1010 - position (pl w) mod 1000"
  let ?w' = "w\<lparr>ml := (ml w)\<lparr>sources := [\<lparr>source = next_source (ml w), interval = ?iv,
                                            user_data = ?iv\<rparr>],
                        next_source := Suc (next_source (ml w)),
                        armed := armed (ml w) @ [?iv]\<rparr>,
              tr := (tr w)\<lparr>source_id := Some (next_source (ml w)),
                             tick_prev_sec := s div 1000\<rparr>\<rparr>"
  have "step (SeekTo s) w = Inr ?w'"
    by (simp add: step_def emit_four armed handler_def seek_def restart_def enable_eq
        disable_def source_remove_def)
  moreover have "wf ?w'"
    by (rule wf_armedI [where sid = "next_source (ml w)" and iv = ?iv])
      (use interval_range [of "position (pl w)"] in \<open>simp_all add: armed\<close>)
  ultimately show ?thesis by simp
qed

lemma wf_song:
  assumes "wf w"
  shows "\<exists>w'. step SongStart w = Inr w' \<and> wf w' \<and> ticks w' = ticks w \<and>
     (armed (ml w') = armed (ml w) \<and> next_source (ml w') = next_source (ml w) \<and>
        set (sources (ml w')) \<subseteq> set (sources (ml w)) \<or>
      armed (ml w') = armed (ml w) @ [1010 - position (pl w) mod 1000] \<and>
      next_source (ml w') = Suc (next_source (ml w)) \<and>
      source_id (tr w') = Some (next_source (ml w)) \<and>
      sources (ml w') = [\<lparr>source = next_source (ml w),
                          interval = 1010 - position (pl w) mod 1000,
                          user_data = 1010 - position (pl w) mod 1000\<rparr>])"
proof -
  have wf': "wf (song_started w)"
    using assms unfolding song_started_def
  proof (cases rule: wf_cases)
    case idle
    show "wf (if tick_prev_sec (tr w) = 1 then w\<lparr>tr := (tr w)\<lparr>tick_prev_sec := 0\<rparr>\<rparr> else w)"
      by (rule wf_idleI) (use idle in simp_all)
  next
    case (armed sid iv)
    show "wf (if tick_prev_sec (tr w) = 1 then w\<lparr>tr := (tr w)\<lparr>tick_prev_sec := 0\<rparr>\<rparr> else w)"
      by (rule wf_armedI [where sid = sid and iv = iv]) (simp_all add: armed)
  qed
  have "handlers (pl w) = [] \<or> handlers (pl w) = four"
    using assms by (simp add: wf_def)
  then show ?thesis
  proof
    assume h: "handlers (pl w) = []"
    have "step SongStart w = Inr w"
      by (simp add: step_def emit_none h)
    then show ?thesis using assms by simp
  next
    assume h: "handlers (pl w) = four"
    have "step SongStart w = Inr (song_started w)"
      by (simp add: step_def emit_four h handler_def)
    then show ?thesis using wf' by (simp add: song_started_def)
  qed
qed

lemma wf_position:
  assumes "wf w"
  shows "\<exists>w'. step (Position p) w = Inr w' \<and> wf w' \<and> ticks w' = ticks w \<and>
     (armed (ml w') = armed (ml w) \<and> next_source (ml w') = next_source (ml w) \<and>
        set (sources (ml w')) \<subseteq> set (sources (ml w)) \<or>
      armed (ml w') = armed (ml w) @ [1010 - position (pl w) mod 1000] \<and>
      next_source (ml w') = Suc (next_source (ml w)) \<and>
      source_id (tr w') = Some (next_source (ml w)) \<and>
      sources (ml w') = [\<lparr>source = next_source (ml w),
                          interval = 1010 - position (pl w) mod 1000,
                          user_data = 1010 - position (pl w) mod 1000\<rparr>])"
proof -
  have "wf (w\<lparr>pl := (pl w)\<lparr>position := p\<rparr>\<rparr>)"
    using assms
  proof (cases rule: wf_cases)
    case idle
    show ?thesis by (rule wf_idleI) (use idle in simp_all)
  next
    case (armed sid iv)
    show ?thesis by (rule wf_armedI [where sid = sid and iv = iv]) (simp_all add: armed)
  qed
  then show ?thesis by (simp add: step_def)
qed

lemma wf_destroy:
  assumes "wf w"
  shows "\<exists>w'. step Destroy w = Inr w' \<and> wf w' \<and> detached w' \<and> ticks w' = ticks w \<and>
     (armed (ml w') = armed (ml w) \<and> next_source (ml w') = next_source (ml w) \<and>
        set (sources (ml w')) \<subseteq> set (sources (ml w)) \<or>
      armed (ml w') = armed (ml w) @ [1010 - position (pl w) mod 1000] \<and>
      next_source (ml w') = Suc (next_source (ml w)) \<and>
      source_id (tr w') = Some (next_source (ml w)) \<and>
      sources (ml w') = [\<lparr>source = next_source (ml w),
                          interval = 1010 - position (pl w) mod 1000,
                          user_data = 1010 - position (pl w) mod 1000\<rparr>])"
  using assms
proof (cases rule: wf_cases)
  case idle
  let ?w' = "w\<lparr>pl := (pl w)\<lparr>handlers := []\<rparr>\<rparr>"
  have "destroy w = ?w'"
    using idle(2) by (auto simp: destroy_def disable_def idle disconnect_def four_def)
  moreover have "wf ?w'"
    by (rule wf_idleI) (simp_all add: idle)
  ultimately show ?thesis by (simp add: step_def idle detached_def)
next
  case (armed sid iv)
  let ?w' = "w\<lparr>pl := (pl w)\<lparr>handlers := []\<rparr>, ml := (ml w)\<lparr>sources := []\<rparr>,
              tr := (tr w)\<lparr>source_id := None\<rparr>\<rparr>"
  have "destroy w = ?w'"
    by (simp add: destroy_def disable_def armed disconnect_def source_remove_def four_def)
  moreover have "wf ?w'"
    by (rule wf_idleI) (simp_all add: armed)
  ultimately show ?thesis by (simp add: step_def detached_def)
qed

lemma wf_fire:
  assumes "wf w"
  shows "\<exists>w'. step (Fire sid) w = Inr w' \<and> wf w' \<and>
     (armed (ml w') = armed (ml w) \<and> next_source (ml w') = next_source (ml w) \<and>
        set (sources (ml w')) \<subseteq> set (sources (ml w)) \<or>
      armed (ml w') = armed (ml w) @ [1010 - position (pl w) mod 1000] \<and>
      next_source (ml w') = Suc (next_source (ml w)) \<and>
      source_id (tr w') = Some (next_source (ml w)) \<and>
      sources (ml w') = [\<lparr>source = next_source (ml w),
                          interval = 1010 - position (pl w) mod 1000,
                          user_data = 1010 - position (pl w) mod 1000\<rparr>])"
  using assms
proof (cases rule: wf_cases)
  case idle
  have "step (Fire sid) w = Inr w"
    by (simp add: step_def dispatch_def idle)
  then show ?thesis using assms by simp
next
  case (armed s iv)
  note r = interval_range [of "position (pl w)"]
  show ?thesis
  proof (cases "sid = s")
    case False
    then have "step (Fire sid) w = Inr w"
      by (simp add: step_def dispatch_def armed)
    then show ?thesis using assms by simp
  next
    case True
    show ?thesis
    proof (cases "20 < \<bar>iv - (1010 - position (pl w) mod 1000)\<bar>")
      case far: True
      let ?iv = "1010 - position (pl w) mod 1000"
      let ?w' = "w\<lparr>ml := (ml w)\<lparr>sources := [\<lparr>source = next_source (ml w), interval = ?iv,
                                              user_data = ?iv\<rparr>],
                          next_source := Suc (next_source (ml w)),
                          armed := armed (ml w) @ [?iv]\<rparr>,
                  tr := (tr w)\<lparr>source_id := Some (next_source (ml w)),
                     tick_prev_sec :=
                       (if position (pl w) div 1000 \<noteq> tick_prev_sec (tr w) \<and>
                           position (pl w) div 1000 \<noteq> 0
                        then position (pl w) div 1000 else tick_prev_sec (tr w))\<rparr>,
                  ticks := (if position (pl w) div 1000 \<noteq> tick_prev_sec (tr w) \<and>
                               position (pl w) div 1000 \<noteq> 0
                            then ticks w @ [position (pl w) div 1000] else ticks w)\<rparr>"
      have ne: "next_source (ml w) \<noteq> s" using armed(6) by simp
      have "step (Fire sid) w = Inr ?w'"
        using far ne by (simp add: step_def dispatch_def run_eq True armed source_remove_def)
      moreover have "wf ?w'"
        by (rule wf_armedI [where sid = "next_source (ml w)" and iv = ?iv])
          (use r in \<open>simp_all add: armed\<close>)
      ultimately show ?thesis by simp
    next
      case near: False
      let ?w' = "w\<lparr>tr := (tr w)\<lparr>tick_prev_sec :=
                       (if position (pl w) div 1000 \<noteq> tick_prev_sec (tr w) \<and>
                           position (pl w) div 1000 \<noteq> 0
                        then position (pl w) div 1000 else tick_prev_sec (tr w))\<rparr>,
                  ticks := (if position (pl w) div 1000 \<noteq> tick_prev_sec (tr w) \<and>
                               position (pl w) div 1000 \<noteq> 0
                            then ticks w @ [position (pl w) div 1000] else ticks w)\<rparr>"
      have "step (Fire sid) w = Inr ?w'"
        using near by (simp add: step_def dispatch_def run_eq True armed)
      moreover have "wf ?w'"
        by (rule wf_armedI [where sid = s and iv = iv]) (simp_all add: armed)
      ultimately show ?thesis by simp
    qed
  qed
qed

lemma wf_step:
  assumes "wf w"
  shows "\<exists>w'. step ev w = Inr w' \<and> wf w' \<and>
     (armed (ml w') = armed (ml w) \<and> next_source (ml w') = next_source (ml w) \<and>
        set (sources (ml w')) \<subseteq> set (sources (ml w)) \<or>
      armed (ml w') = armed (ml w) @ [1010 - position (pl w) mod 1000] \<and>
      next_source (ml w') = Suc (next_source (ml w)) \<and>
      source_id (tr w') = Some (next_source (ml w)) \<and>
      sources (ml w') = [\<lparr>source = next_source (ml w),
                          interval = 1010 - position (pl w) mod 1000,
                          user_data = 1010 - position (pl w) mod 1000\<rparr>])"
proof (cases ev)
  case Pause
  then show ?thesis using wf_pause [OF assms] by blast
next
  case Unpause
  then show ?thesis using wf_unpause [OF assms] by blast
next
  case (SeekTo s)
  then show ?thesis using wf_seek [OF assms, of s] by blast
next
  case SongStart
  then show ?thesis using wf_song [OF assms] by blast
next
  case (Position p)
  then show ?thesis using wf_position [OF assms, of p] by blast
next
  case (Fire sid)
  then show ?thesis using wf_fire [OF assms, of sid] by blast
next
  case Destroy
  then show ?thesis using wf_destroy [OF assms] by blast
qed

lemma wf_steps: "wf w \<Longrightarrow> \<exists>w'. steps evs w = Inr w' \<and> wf w'"
proof (induction evs arbitrary: w)
  case Nil
  then show ?case by simp
next
  case (Cons ev evs)
  obtain w1 where h: "step ev w = Inr w1" "wf w1"
    using wf_step [OF Cons.prems, of ev] by blast
  show ?case using Cons.IH [OF h(2)] by (simp add: h(1))
qed

lemma wf_session: "\<exists>w. session pos psd evs = Inr w \<and> wf w"
proof -
  obtain w0 where h: "init (new_player pos psd) new_loop = Inr w0" "wf w0"
    using wf_init by blast
  show ?thesis using wf_steps [OF h(2), of evs] by (simp add: session_def h(1))
qed

lemma session_append:
  "session pos psd (xs @ ys) =
     (case session pos psd xs of Inl e \<Rightarrow> Inl e | Inr w \<Rightarrow> steps ys w)"
  by (simp add: session_def steps_append split: sum.splits)

lemma session_eq:
  "session pos psd evs =
     steps evs
       \<lparr>pl = \<lparr>position = pos, paused = psd, handlers = four, next_handler = 5\<rparr>,
        ml = \<lparr>sources = (if psd then []
                          else [\<lparr>source = 1, interval = 1010 - pos mod 1000,
                                  user_data = 1010 - pos mod 1000\<rparr>]),
              next_source = (if psd then 1 else 2),
              armed = (if psd then [] else [1010 - pos mod 1000])\<rparr>,
        tr = \<lparr>source_id = (if psd then None else Some 1), tick_prev_sec = 0,
               sigs = [1, 2, 3, 4]\<rparr>,
        ticks = []\<rparr>"
  unfolding session_def init_eq by (simp add: new_loop_def)

section \<open>Firing sequences\<close>

lemma firings_ticks:
  assumes "sorted (map fst fs)"
  shows "\<exists>w' new. firings fs w = Inr w' \<and> ticks w' = ticks w @ new \<and>
     sorted_wrt (<) new \<and> set new \<subseteq> (\<lambda>p. p div 1000) ` fst ` set fs \<and>
     ((\<forall>p \<in> fst ` set fs. tick_prev_sec (tr w) \<le> p div 1000) \<longrightarrow>
        tick_prev_sec (tr w) \<notin> set new)"
  using assms
proof (induction fs arbitrary: w)
  case Nil
  show ?case by simp
next
  case (Cons f fs)
  obtain p li where f: "f = (p, li)" by (cases f)
  let ?s = "p div 1000"
  let ?w0 = "w\<lparr>pl := (pl w)\<lparr>position := p\<rparr>\<rparr>"
  obtain keep w1 where r: "run li ?w0 = Inr (keep, w1)"
    by (simp add: run_eq)
  have srt: "sorted (map fst fs)" and ge: "\<forall>q \<in> fst ` set fs. p \<le> q"
    using Cons.prems by (auto simp: f)
  have ge': "\<forall>q \<in> fst ` set fs. ?s \<le> q div 1000"
    using ge by (auto intro: zdiv_mono1)
  obtain w' new where ih: "firings fs w1 = Inr w'" "ticks w' = ticks w1 @ new"
      "sorted_wrt (<) new" "set new \<subseteq> (\<lambda>p. p div 1000) ` fst ` set fs"
      "(\<forall>p \<in> fst ` set fs. tick_prev_sec (tr w1) \<le> p div 1000) \<longrightarrow>
         tick_prev_sec (tr w1) \<notin> set new"
    using Cons.IH [OF srt, of w1] by blast
  have fw: "firings (f # fs) w = Inr w'"
    by (simp add: f r ih(1))
  show ?case
  proof (cases "?s \<noteq> tick_prev_sec (tr w) \<and> ?s \<noteq> 0")
    case True
    with r have w1: "ticks w1 = ticks w @ [?s]" "tick_prev_sec (tr w1) = ?s"
      by (auto simp: run_eq)
    have notin: "?s \<notin> set new"
      using ih(5) ge' by (simp add: w1)
    have gt: "\<forall>x \<in> set new. ?s < x"
    proof
      fix x assume x: "x \<in> set new"
      then have "?s \<le> x" using ih(4) ge' by auto
      moreover have "x \<noteq> ?s" using x notin by auto
      ultimately show "?s < x" by simp
    qed
    have "ticks w' = ticks w @ (?s # new)"
      by (simp add: ih(2) w1)
    moreover have "sorted_wrt (<) (?s # new)"
      using gt ih(3) by simp
    moreover have "set (?s # new) \<subseteq> (\<lambda>p. p div 1000) ` fst ` set (f # fs)"
      using ih(4) by (auto simp: f)
    moreover have "(\<forall>q \<in> fst ` set (f # fs). tick_prev_sec (tr w) \<le> q div 1000) \<longrightarrow>
        tick_prev_sec (tr w) \<notin> set (?s # new)"
      using True gt by (auto simp: f)
    ultimately show ?thesis using fw by blast
  next
    case False
    with r have w1: "ticks w1 = ticks w" "tick_prev_sec (tr w1) = tick_prev_sec (tr w)"
      by (auto simp: run_eq)
    have "ticks w' = ticks w @ new"
      by (simp add: ih(2) w1)
    moreover have "set new \<subseteq> (\<lambda>p. p div 1000) ` fst ` set (f # fs)"
      using ih(4) by (auto simp: f)
    moreover have "(\<forall>q \<in> fst ` set (f # fs). tick_prev_sec (tr w) \<le> q div 1000) \<longrightarrow>
        tick_prev_sec (tr w) \<notin> set new"
      using ih(5) by (simp add: w1 f)
    ultimately show ?thesis using fw ih(3) by blast
  qed
qed

section \<open>Silence while paused and after destruction\<close>

lemma fold_disconnect:
  "fold disconnect hs p = p\<lparr>handlers := filter (\<lambda>h. fst h \<notin> set hs) (handlers p)\<rparr>"
proof (induction hs arbitrary: p)
  case Nil
  show ?case by simp
next
  case (Cons h hs)
  have "fold disconnect (h # hs) p = fold disconnect hs (disconnect h p)"
    by simp
  also have "\<dots> = (disconnect h p)\<lparr>handlers :=
      filter (\<lambda>x. fst x \<notin> set hs) (handlers (disconnect h p))\<rparr>"
    by (rule Cons.IH)
  also have "\<dots> = p\<lparr>handlers := filter (\<lambda>x. fst x \<notin> set (h # hs)) (handlers p)\<rparr>"
    by (simp add: disconnect_def conj_commute)
  finally show ?case .
qed

lemma handler_quiet:
  assumes "source_id (tr w) = None" and "paused (pl w)" and "sg \<noteq> Unpaused"
  shows "\<exists>w'. handler sg a w = Inr w' \<and> source_id (tr w') = None \<and> pl w' = pl w \<and>
     ml w' = ml w \<and> ticks w' = ticks w"
  using assms
  by (cases sg) (simp_all add: handler_def disable_def seek_def song_started_def)

lemma emit_to_quiet:
  assumes "source_id (tr w) = None" and "paused (pl w)" and "sg \<noteq> Unpaused"
  shows "\<exists>w'. emit_to hs sg a w = Inr w' \<and> source_id (tr w') = None \<and> pl w' = pl w \<and>
     ml w' = ml w \<and> ticks w' = ticks w"
  using assms
proof (induction hs arbitrary: w)
  case Nil
  then show ?case by simp
next
  case (Cons h hs)
  show ?case
  proof (cases "snd h = sg")
    case False
    then show ?thesis using Cons.IH [OF Cons.prems] by simp
  next
    case True
    obtain w1 where h1: "handler sg a w = Inr w1" "source_id (tr w1) = None"
        "pl w1 = pl w" "ml w1 = ml w" "ticks w1 = ticks w"
      using handler_quiet [OF Cons.prems, of a] by blast
    have "paused (pl w1)" using Cons.prems(2) by (simp add: h1(3))
    from Cons.IH [OF h1(2) this Cons.prems(3)] show ?thesis
      by (simp add: True h1)
  qed
qed

lemma emit_quiet:
  assumes "quiet w" and "sg \<noteq> Unpaused"
  shows "\<exists>w'. emit sg a w = Inr w' \<and> quiet w' \<and> ticks w' = ticks w \<and>
     armed (ml w') = armed (ml w) \<and> handlers (pl w') = handlers (pl w)"
proof (cases "handlers (pl w) = []")
  case True
  then show ?thesis using assms(1) by (simp add: emit_none)
next
  case False
  then have p: "paused (pl w)" and s: "source_id (tr w) = None"
    using assms(1) by (auto simp: quiet_def)
  obtain w' where h: "emit_to (handlers (pl w)) sg a w = Inr w'" "source_id (tr w') = None"
      "pl w' = pl w" "ml w' = ml w" "ticks w' = ticks w"
    using emit_to_quiet [OF s p assms(2), of "handlers (pl w)" a] by blast
  have "quiet w'"
    using assms(1) by (simp add: quiet_def h)
  then show ?thesis by (simp add: emit_def h)
qed

lemma quiet_step:
  assumes "quiet w" and "ev \<noteq> Unpause"
  shows "\<exists>w'. step ev w = Inr w' \<and> quiet w' \<and> ticks w' = ticks w \<and>
     armed (ml w') = armed (ml w)"
proof (cases ev)
  case Pause
  have q: "quiet (w\<lparr>pl := (pl w)\<lparr>paused := True\<rparr>\<rparr>)"
    using assms(1) by (simp add: quiet_def)
  from emit_quiet [OF q, of Paused 0] show ?thesis
    by (auto simp: step_def Pause)
next
  case Unpause
  then show ?thesis using assms(2) by simp
next
  case (SeekTo s)
  from emit_quiet [OF assms(1), of Seek s] show ?thesis
    by (auto simp: step_def SeekTo)
next
  case SongStart
  from emit_quiet [OF assms(1), of SongStarted 0] show ?thesis
    by (auto simp: step_def SongStart)
next
  case (Position p)
  then show ?thesis using assms(1) by (simp add: step_def quiet_def)
next
  case (Fire sid)
  then show ?thesis using assms(1) by (simp add: step_def dispatch_def quiet_def)
next
  case Destroy
  then show ?thesis using assms(1)
    by (auto simp: step_def destroy_def disable_def fold_disconnect quiet_def)
qed

lemma quiet_steps:
  assumes "quiet w" and "Unpause \<notin> set evs"
  shows "\<exists>w'. steps evs w = Inr w' \<and> quiet w' \<and> ticks w' = ticks w \<and>
     armed (ml w') = armed (ml w)"
  using assms
proof (induction evs arbitrary: w)
  case Nil
  then show ?case by simp
next
  case (Cons ev evs)
  then have "ev \<noteq> Unpause" and rest: "Unpause \<notin> set evs" by auto
  then obtain w1 where h: "step ev w = Inr w1" "quiet w1" "ticks w1 = ticks w"
      "armed (ml w1) = armed (ml w)"
    using quiet_step [OF Cons.prems(1), of ev] by blast
  from Cons.IH [OF h(2) rest] show ?case by (simp add: h)
qed

lemma detached_step:
  assumes "detached w"
  shows "\<exists>w'. step ev w = Inr w' \<and> detached w' \<and> ticks w' = ticks w \<and>
     armed (ml w') = armed (ml w)"
  using assms
  by (cases ev)
    (simp_all add: step_def emit_none dispatch_def destroy_def disable_def fold_disconnect
      detached_def)

lemma detached_steps:
  assumes "detached w"
  shows "\<exists>w'. steps evs w = Inr w' \<and> detached w' \<and> ticks w' = ticks w \<and>
     armed (ml w') = armed (ml w)"
  using assms
proof (induction evs arbitrary: w)
  case Nil
  then show ?case by simp
next
  case (Cons ev evs)
  obtain w1 where h: "step ev w = Inr w1" "detached w1" "ticks w1 = ticks w"
      "armed (ml w1) = armed (ml w)"
    using detached_step [OF Cons.prems, of ev] by blast
  from Cons.IH [OF h(2)] show ?case by (simp add: h)
qed

lemma session_then:
  assumes "session pos psd xs = Inr w"
  shows "session pos psd (xs @ ys) = steps ys w"
  by (simp add: session_append assms)

section \<open>The timer callback\<close>

text \<open>
  C1: every firing of the timer callback reads the position once; with
  \<open>current_sec\<close> the floor of that position over 1000, it emits a tick if and only if
  \<open>current_sec\<close> differs from the last ticked second and is not zero, and then the
  last ticked second becomes \<open>current_sec\<close>; otherwise nothing is emitted and the last
  ticked second stays. In particular no tick is emitted while the playback position is
  below 1000 ms (a playback position is not negative).
\<close>

theorem run_ticks_on_new_second:
  "\<exists>keep w'. run last_interval w = Inr (keep, w') \<and>
     (if position (pl w) div 1000 \<noteq> tick_prev_sec (tr w) \<and> position (pl w) div 1000 \<noteq> 0
      then ticks w' = ticks w @ [position (pl w) div 1000] \<and>
           tick_prev_sec (tr w') = position (pl w) div 1000
      else ticks w' = ticks w \<and> tick_prev_sec (tr w') = tick_prev_sec (tr w)) \<and>
     (0 \<le> position (pl w) \<and> position (pl w) < 1000 \<longrightarrow> ticks w' = ticks w)"
  by (simp add: run_eq)

theorem run_ticks_on_new_second_witness:
  "(0::int) \<le> 999 \<and> (999::int) < 1000 \<and>
   (\<exists>keep w'. run 1010 (playing 999 7) = Inr (keep, w') \<and> ticks w' = ticks (playing 999 7)) \<and>
   (\<exists>keep w'. run 1010 (playing 1000 0) = Inr (keep, w') \<and> ticks w' = [1]
      \<and> tick_prev_sec (tr w') = 1)"
  using run_ticks_on_new_second [of 1010 "playing 999 7"]
    run_ticks_on_new_second [of 1010 "playing 1000 0"]
  by (simp add: playing_def run_eq)

text \<open>
  C2: with the lead offset 10 and the threshold 20, every firing computes the ideal
  interval \<open>1000 + offset - position mod 1000\<close> and then does exactly one of two
  things. If it differs from the interval the firing was scheduled with by more than the
  threshold, the callback arms one new source with the ideal interval, records that
  interval as the argument of the new source, and gives up the source that fired; else
  it arms nothing and keeps the source that fired, with its interval and argument as
  they were.
\<close>

theorem run_rearms_or_repeats:
  "offset = 10 \<and> max_delta = 20 \<and>
   (\<exists>keep w'. run last_interval w = Inr (keep, w') \<and>
      (if \<bar>last_interval - (1000 + offset - position (pl w) mod 1000)\<bar> > max_delta
       then \<not> keep \<and>
            source_id (tr w') = Some (next_source (ml w)) \<and>
            sources (ml w') = sources (ml w) @
              [\<lparr>source = next_source (ml w),
                interval = 1000 + offset - position (pl w) mod 1000,
                user_data = 1000 + offset - position (pl w) mod 1000\<rparr>] \<and>
            armed (ml w') = armed (ml w) @ [1000 + offset - position (pl w) mod 1000]
       else keep \<and> ml w' = ml w \<and> source_id (tr w') = source_id (tr w))) \<and>
   (find (\<lambda>x. source x = sid) (sources (ml w)) = Some t \<and>
    (\<forall>x \<in> set (sources (ml w)). source x < next_source (ml w)) \<longrightarrow>
      (\<exists>w'. dispatch sid w = Inr w' \<and>
         (if \<bar>user_data t - (1000 + offset - position (pl w) mod 1000)\<bar> > max_delta
          then sources (ml w') = filter (\<lambda>x. source x \<noteq> sid) (sources (ml w)) @
                 [\<lparr>source = next_source (ml w),
                   interval = 1000 + offset - position (pl w) mod 1000,
                   user_data = 1000 + offset - position (pl w) mod 1000\<rparr>]
          else sources (ml w') = sources (ml w) \<and> armed (ml w') = armed (ml w))))"
proof -
  have "next_source (ml w) \<noteq> sid"
    if "find (\<lambda>x. source x = sid) (sources (ml w)) = Some t"
      and "\<forall>x \<in> set (sources (ml w)). source x < next_source (ml w)"
  proof -
    from that(1) have "t \<in> set (sources (ml w))" and "source t = sid"
      by (auto simp: find_Some_iff)
    with that(2) show ?thesis by auto
  qed
  then show ?thesis
    by (simp add: run_eq dispatch_def source_remove_def offset_def max_delta_def)
qed

theorem run_rearms_or_repeats_witness:
  "(find (\<lambda>x. source x = 1) (sources (ml (playing 1005 0))) =
      Some \<lparr>source = 1, interval = 1010, user_data = 1010\<rparr> \<and>
    list_all (\<lambda>x. source x < next_source (ml (playing 1005 0)))
      (sources (ml (playing 1005 0))) \<and>
    (\<exists>w'. dispatch 1 (playing 1005 0) = Inr w' \<and>
       sources (ml w') = [\<lparr>source = 1, interval = 1010, user_data = 1010\<rparr>])) \<and>
   (\<exists>w'. dispatch 1 (playing 2050 1) = Inr w' \<and>
      sources (ml w') = [\<lparr>source = 2, interval = 960, user_data = 960\<rparr>])"
proof (rule conjI)
  show "find (\<lambda>x. source x = 1) (sources (ml (playing 1005 0))) =
      Some \<lparr>source = 1, interval = 1010, user_data = 1010\<rparr> \<and>
    list_all (\<lambda>x. source x < next_source (ml (playing 1005 0)))
      (sources (ml (playing 1005 0))) \<and>
    (\<exists>w'. dispatch 1 (playing 1005 0) = Inr w' \<and>
       sources (ml w') = [\<lparr>source = 1, interval = 1010, user_data = 1010\<rparr>])"
    using run_rearms_or_repeats
      [of 1010 "playing 1005 0" 1 "\<lparr>source = 1, interval = 1010, user_data = 1010\<rparr>"]
    by (simp add: playing_def offset_def max_delta_def dispatch_def run_eq)
  show "\<exists>w'. dispatch 1 (playing 2050 1) = Inr w' \<and>
      sources (ml w') = [\<lparr>source = 2, interval = 960, user_data = 960\<rparr>]"
    using run_rearms_or_repeats
      [of 1010 "playing 2050 1" 1 "\<lparr>source = 1, interval = 1010, user_data = 1010\<rparr>"]
    by (simp add: playing_def offset_def max_delta_def dispatch_def run_eq source_remove_def)
qed

section \<open>Sequences of firings\<close>

text \<open>
  C3: in a sequence of firings whose position reads do not decrease, with no seek and no
  track change in between, the ticks emitted carry pairwise different seconds: at most
  one tick per value of the floor of the position over 1000. Each ticked second is the
  second of one of the reads.
\<close>

theorem no_duplicate_ticks:
  assumes "sorted (map fst fs)"
  shows "\<exists>w' new. firings fs w = Inr w' \<and> ticks w' = ticks w @ new \<and> distinct new \<and>
     set new \<subseteq> (\<lambda>p. p div 1000) ` fst ` set fs"
proof -
  obtain w' new where h: "firings fs w = Inr w'" "ticks w' = ticks w @ new"
      "sorted_wrt (<) new" "set new \<subseteq> (\<lambda>p. p div 1000) ` fst ` set fs"
    using firings_ticks [OF assms, of w] by blast
  from h(3) have "distinct new"
    by (simp add: strict_sorted_iff)
  with h show ?thesis by blast
qed

theorem no_duplicate_ticks_witness:
  "sorted (map fst [(990 :: int, 1010 :: int), (1005, 1010), (1400, 1010), (2010, 1010),
      (2011, 1005)]) \<and>
   (\<exists>w'. firings [(990, 1010), (1005, 1010), (1400, 1010), (2010, 1010), (2011, 1005)]
           (playing 0 0) = Inr w' \<and> ticks w' = [1, 2])"
  using no_duplicate_ticks
    [of "[(990, 1010), (1005, 1010), (1400, 1010), (2010, 1010), (2011, 1005)]" "playing 0 0"]
  by (simp add: playing_def run_eq)

section \<open>Seeking\<close>

text \<open>
  C4: the handler of \<open>seek\<close> sets the last ticked second to the floor of the seek
  target over 1000. When the player is not paused it also removes the pending source,
  whatever it is, and arms a new one with the interval computed from the position read
  at that moment; when the player is paused the main loop is left alone. So after a seek
  to 5000 a firing that reads 5010 emits nothing, and a later firing that reads 6050
  emits the tick of second 6.
\<close>

theorem seek_resets_baseline:
  "(\<exists>w1. seek s w = Inr w1 \<and> tick_prev_sec (tr w1) = s div 1000 \<and>
      ticks w1 = ticks w \<and> pl w1 = pl w \<and>
      (if paused (pl w) then ml w1 = ml w \<and> source_id (tr w1) = source_id (tr w)
       else source_id (tr w1) = Some (next_source (ml w)) \<and>
            sources (ml w1) =
              filter (\<lambda>t. Some (source t) \<noteq> source_id (tr w)) (sources (ml w)) @
              [\<lparr>source = next_source (ml w),
                interval = 1000 + offset - position (pl w) mod 1000,
                user_data = 1000 + offset - position (pl w) mod 1000\<rparr>] \<and>
            armed (ml w1) = armed (ml w) @ [1000 + offset - position (pl w) mod 1000])) \<and>
   (\<exists>w1 w2 w3. seek 5000 w = Inr w1 \<and>
      firings [(5010, li)] w1 = Inr w2 \<and> ticks w2 = ticks w \<and>
      firings [(6050, li')] w2 = Inr w3 \<and> ticks w3 = ticks w @ [6])"
  by (cases "source_id (tr w)")
    (simp_all add: seek_def restart_def enable_eq disable_def source_remove_def run_eq
      offset_def Let_def)

theorem seek_resets_baseline_witness:
  "\<exists>w1 w2 w3. seek 5000 (playing 0 0) = Inr w1 \<and> tick_prev_sec (tr w1) = 5 \<and>
     source_id (tr w1) = Some 2 \<and>
     sources (ml w1) = [\<lparr>source = 2, interval = 1010, user_data = 1010\<rparr>] \<and>
     firings [(5010, 1010)] w1 = Inr w2 \<and> ticks w2 = [] \<and>
     firings [(6050, 1010)] w2 = Inr w3 \<and> ticks w3 = [6]"
  using seek_resets_baseline [of 5000 "playing 0 0" 1010 1010]
  by (simp add: playing_def seek_def restart_def enable_eq disable_def source_remove_def
      run_eq)

section \<open>From construction to the first tick\<close>

text \<open>
  C5, as the code has it: constructed at position 0 on a player that is not paused, the
  tracker arms its first source with interval 1010. When that source fires and reads
  position 1005, a tick is emitted and the last ticked second becomes 1; the ideal
  interval is then 1000 + 10 - 5 = 1005, which is within the threshold 20 of 1010, so
  nothing is armed and the source stays attached with interval 1010.
\<close>

theorem first_wakeup_repeats_with_1010:
  "(\<exists>w0. session 0 False [] = Inr w0 \<and> ticks w0 = [] \<and>
      sources (ml w0) = [\<lparr>source = 1, interval = 1010, user_data = 1010\<rparr>]) \<and>
   (\<exists>w. session 0 False [Position 1005, Fire 1] = Inr w \<and>
      ticks w = [1] \<and> tick_prev_sec (tr w) = 1 \<and>
      1000 + offset - position (pl w) mod 1000 = 1005 \<and>
      \<bar>1010 - (1000 + offset - position (pl w) mod 1000)\<bar> \<le> max_delta \<and>
      sources (ml w) = [\<lparr>source = 1, interval = 1010, user_data = 1010\<rparr>] \<and>
      armed (ml w) = [1010])"
  by (simp add: session_def init_eq step_def dispatch_def run_eq offset_def max_delta_def)

text \<open>
  C5 as stated does not hold: after the firing at position 1005 there is no wake-up
  with interval 1005.
\<close>

theorem first_wakeup_next_interval_counterexample:
  "\<not> (\<exists>w. session 0 False [Position 1005, Fire 1] = Inr w \<and>
         ticks w = [1] \<and> tick_prev_sec (tr w) = 1 \<and>
         map interval (sources (ml w)) = [1005])"
  by (simp add: session_def init_eq step_def dispatch_def run_eq)

section \<open>The pending wake-up\<close>

text \<open>
  C6: every session succeeds, and in the world it reaches the tracker holds a source id
  if and only if it is still subscribed to the player and the player is not paused; the
  main loop holds at most one source of the tracker, namely the one the tracker
  remembers; and whatever happens next either arms nothing and attaches nothing new, or
  arms one source which is then the only one attached and the one the tracker
  remembers, so that the source pending before is gone by the end of that event.
\<close>

theorem one_pending_wakeup:
  "\<exists>w. session pos psd evs = Inr w \<and>
     (handlers (pl w) = [] \<or> handlers (pl w) = four) \<and>
     (source_id (tr w) \<noteq> None \<longleftrightarrow> handlers (pl w) = four \<and> \<not> paused (pl w)) \<and>
     length (sources (ml w)) \<le> 1 \<and>
     map source (sources (ml w)) = (case source_id (tr w) of None \<Rightarrow> [] | Some sid \<Rightarrow> [sid]) \<and>
     (\<forall>ev. \<exists>w'. step ev w = Inr w' \<and>
        (next_source (ml w') = next_source (ml w) \<and>
           set (sources (ml w')) \<subseteq> set (sources (ml w)) \<or>
         next_source (ml w') = Suc (next_source (ml w)) \<and>
           source_id (tr w') = Some (next_source (ml w)) \<and>
           map source (sources (ml w')) = [next_source (ml w)]))"
proof -
  obtain w where w: "session pos psd evs = Inr w" "wf w"
    using wf_session by blast
  have a: "handlers (pl w) = [] \<or> handlers (pl w) = four"
    using w(2) by (simp add: wf_def)
  have b: "source_id (tr w) \<noteq> None \<longleftrightarrow> handlers (pl w) = four \<and> \<not> paused (pl w)"
    using w(2)
  proof (cases rule: wf_cases)
    case idle
    have "four \<noteq> []" by (simp add: four_def)
    with idle(2,3) show ?thesis by auto
  next
    case (armed sid iv)
    then show ?thesis by simp
  qed
  have c: "length (sources (ml w)) \<le> 1"
    using w(2) by (cases rule: wf_cases) simp_all
  have d: "map source (sources (ml w)) =
      (case source_id (tr w) of None \<Rightarrow> [] | Some sid \<Rightarrow> [sid])"
    using w(2) by (cases rule: wf_cases) simp_all
  have e: "\<exists>w'. step ev w = Inr w' \<and>
        (next_source (ml w') = next_source (ml w) \<and>
           set (sources (ml w')) \<subseteq> set (sources (ml w)) \<or>
         next_source (ml w') = Suc (next_source (ml w)) \<and>
           source_id (tr w') = Some (next_source (ml w)) \<and>
           map source (sources (ml w')) = [next_source (ml w)])" for ev
  proof -
    obtain w' where s: "step ev w = Inr w'"
      and "armed (ml w') = armed (ml w) \<and> next_source (ml w') = next_source (ml w) \<and>
        set (sources (ml w')) \<subseteq> set (sources (ml w)) \<or>
      armed (ml w') = armed (ml w) @ [1010 - position (pl w) mod 1000] \<and>
      next_source (ml w') = Suc (next_source (ml w)) \<and>
      source_id (tr w') = Some (next_source (ml w)) \<and>
      sources (ml w') = [\<lparr>source = next_source (ml w),
                          interval = 1010 - position (pl w) mod 1000,
                          user_data = 1010 - position (pl w) mod 1000\<rparr>]"
      using wf_step [OF w(2), of ev] by blast
    then have "next_source (ml w') = next_source (ml w) \<and>
           set (sources (ml w')) \<subseteq> set (sources (ml w)) \<or>
         next_source (ml w') = Suc (next_source (ml w)) \<and>
           source_id (tr w') = Some (next_source (ml w)) \<and>
           map source (sources (ml w')) = [next_source (ml w)]"
      by (elim disjE conjE) simp_all
    with s show ?thesis by (intro exI [of _ w'] conjI)
  qed
  show ?thesis
  proof (rule exI [of _ w], intro conjI allI)
    show "session pos psd evs = Inr w" by (rule w(1))
    show "handlers (pl w) = [] \<or> handlers (pl w) = four" by (rule a)
    show "(source_id (tr w) \<noteq> None) = (handlers (pl w) = four \<and> \<not> paused (pl w))"
      by (rule b)
    show "length (sources (ml w)) \<le> 1" by (rule c)
    show "map source (sources (ml w)) =
        (case source_id (tr w) of None \<Rightarrow> [] | Some sid \<Rightarrow> [sid])"
      by (rule d)
    show "\<exists>w'. step ev w = Inr w' \<and>
        (next_source (ml w') = next_source (ml w) \<and>
           set (sources (ml w')) \<subseteq> set (sources (ml w)) \<or>
         next_source (ml w') = Suc (next_source (ml w)) \<and>
           source_id (tr w') = Some (next_source (ml w)) \<and>
           map source (sources (ml w')) = [next_source (ml w)])" for ev
      by (rule e)
  qed
qed

theorem one_pending_wakeup_witness:
  "\<exists>w. session 0 False [Position 2050, Fire 1, Pause, Unpause, SeekTo 7000] = Inr w \<and>
     handlers (pl w) = four \<and> \<not> paused (pl w) \<and> source_id (tr w) = Some 4 \<and>
     map source (sources (ml w)) = [4] \<and>
     (\<exists>w'. step (Fire 4) w = Inr w' \<and> next_source (ml w') = next_source (ml w))"
  using one_pending_wakeup [of 0 False "[Position 2050, Fire 1, Pause, Unpause, SeekTo 7000]"]
  by (simp add: session_def init_eq step_def emit_four handler_def enable_eq disable_def
      seek_def restart_def dispatch_def run_eq source_remove_def)

section \<open>Pausing and resuming\<close>

text \<open>
  C7: once the player has paused in a session, the tracker holds no source and the main
  loop none of its sources; whatever happens afterwards, short of the player resuming
  (positions advancing, the main loop dispatching, seeks, track changes, more pauses,
  destruction), emits no tick and arms nothing. The handler of \<open>unpaused\<close> arms a new
  source with the interval computed from the position read at that moment if the
  tracker holds no source, and does nothing if it holds one.
\<close>

theorem pause_suppresses_ticks:
  "(Unpause \<notin> set evs \<longrightarrow>
      (\<exists>w w'. session pos psd (pre @ [Pause]) = Inr w \<and>
         source_id (tr w) = None \<and> sources (ml w) = [] \<and>
         session pos psd (pre @ Pause # evs) = Inr w' \<and>
         ticks w' = ticks w \<and> armed (ml w') = armed (ml w) \<and> sources (ml w') = [])) \<and>
   (\<exists>v'. enable v = Inr v' \<and>
      (if source_id (tr v) = None
       then source_id (tr v') = Some (next_source (ml v)) \<and>
            sources (ml v') = sources (ml v) @
              [\<lparr>source = next_source (ml v),
                interval = 1000 + offset - position (pl v) mod 1000,
                user_data = 1000 + offset - position (pl v) mod 1000\<rparr>] \<and>
            armed (ml v') = armed (ml v) @ [1000 + offset - position (pl v) mod 1000]
       else v' = v))"
proof (rule conjI, rule impI)
  assume no: "Unpause \<notin> set evs"
  obtain w0 where w0: "session pos psd pre = Inr w0" "wf w0"
    using wf_session by blast
  obtain w where w: "step Pause w0 = Inr w" "quiet w"
    using wf_pause [OF w0(2)] by blast
  have s1: "session pos psd (pre @ [Pause]) = Inr w"
    by (simp add: session_append w0(1) w(1))
  obtain w' where w': "steps evs w = Inr w'" "quiet w'" "ticks w' = ticks w"
      "armed (ml w') = armed (ml w)"
    using quiet_steps [OF w(2) no] by blast
  have s2: "session pos psd (pre @ Pause # evs) = Inr w'"
    by (simp add: session_append w0(1) w(1) w'(1))
  have "source_id (tr w) = None" "sources (ml w) = []" "sources (ml w') = []"
    using w(2) w'(2) by (simp_all add: quiet_def)
  with s1 s2 w'(3,4)
  show "\<exists>w w'. session pos psd (pre @ [Pause]) = Inr w \<and>
         source_id (tr w) = None \<and> sources (ml w) = [] \<and>
         session pos psd (pre @ Pause # evs) = Inr w' \<and>
         ticks w' = ticks w \<and> armed (ml w') = armed (ml w) \<and> sources (ml w') = []"
    by (intro exI [of _ w] exI [of _ w'] conjI)
next
  show "\<exists>v'. enable v = Inr v' \<and>
      (if source_id (tr v) = None
       then source_id (tr v') = Some (next_source (ml v)) \<and>
            sources (ml v') = sources (ml v) @
              [\<lparr>source = next_source (ml v),
                interval = 1000 + offset - position (pl v) mod 1000,
                user_data = 1000 + offset - position (pl v) mod 1000\<rparr>] \<and>
            armed (ml v') = armed (ml v) @ [1000 + offset - position (pl v) mod 1000]
       else v' = v)"
    by (simp add: enable_eq offset_def)
qed

theorem pause_suppresses_ticks_witness:
  "Unpause \<notin> set [Position 9050, Fire 1, SeekTo 20000, SongStart, Fire 2, Pause] \<and>
   (\<exists>w w'. session 0 False ([Position 1005, Fire 1] @ [Pause]) = Inr w \<and> ticks w = [1] \<and>
      session 0 False ([Position 1005, Fire 1] @
        Pause # [Position 9050, Fire 1, SeekTo 20000, SongStart, Fire 2, Pause]) = Inr w' \<and>
      ticks w' = [1] \<and> armed (ml w') = [1010])"
proof -
  have no: "Unpause \<notin> set [Position 9050, Fire 1, SeekTo 20000, SongStart, Fire 2, Pause]"
    by simp
  obtain w w' where h: "session 0 False ([Position 1005, Fire 1] @ [Pause]) = Inr w"
      "session 0 False ([Position 1005, Fire 1] @
        Pause # [Position 9050, Fire 1, SeekTo 20000, SongStart, Fire 2, Pause]) = Inr w'"
      "ticks w' = ticks w" "armed (ml w') = armed (ml w)"
    using pause_suppresses_ticks
      [of "[Position 9050, Fire 1, SeekTo 20000, SongStart, Fire 2, Pause]" 0 False
        "[Position 1005, Fire 1]" "playing 0 0", THEN conjunct1, rule_format, OF no]
    by (elim conjE exE)
  have "\<exists>u. session 0 False ([Position 1005, Fire 1] @ [Pause]) = Inr u \<and> ticks u = [1] \<and>
      armed (ml u) = [1010]"
    by (simp add: session_def init_eq step_def dispatch_def run_eq emit_four handler_def
        disable_def source_remove_def)
  with h(1) have "ticks w = [1]" "armed (ml w) = [1010]" by auto
  with h no show ?thesis by (intro conjI exI [of _ w] exI [of _ w']) simp_all
qed

section \<open>Track change\<close>

text \<open>
  C8: the handler of \<open>song-started\<close> sets the last ticked second to 0 exactly when it
  is 1 and leaves every other value as it is; nothing else changes. So when the previous
  track left the value 1 behind, a firing within second 1 of the new track emits its
  tick.
\<close>

theorem song_started_resets_only_one:
  "tick_prev_sec (tr (song_started w)) =
     (if tick_prev_sec (tr w) = 1 then 0 else tick_prev_sec (tr w)) \<and>
   pl (song_started w) = pl w \<and> ml (song_started w) = ml w \<and>
   ticks (song_started w) = ticks w \<and>
   source_id (tr (song_started w)) = source_id (tr w) \<and>
   sigs (tr (song_started w)) = sigs (tr w) \<and>
   (tick_prev_sec (tr w) = 1 \<and> 1000 \<le> position (pl w) \<and> position (pl w) < 2000 \<longrightarrow>
      (\<exists>keep w'. run last_interval (song_started w) = Inr (keep, w') \<and>
         ticks w' = ticks w @ [1]))"
proof -
  have "position (pl w) div 1000 = 1" if "1000 \<le> position (pl w)" "position (pl w) < 2000"
    using that by linarith
  then show ?thesis by (simp add: song_started_def run_eq)
qed

theorem song_started_resets_only_one_witness:
  "tick_prev_sec (tr (playing 1500 1)) = 1 \<and> 1000 \<le> position (pl (playing 1500 1)) \<and>
   position (pl (playing 1500 1)) < 2000 \<and>
   tick_prev_sec (tr (song_started (playing 1500 1))) = 0 \<and>
   tick_prev_sec (tr (song_started (playing 1500 2))) = 2 \<and>
   (\<exists>keep w'. run 1010 (song_started (playing 1500 1)) = Inr (keep, w') \<and> ticks w' = [1])"
  using song_started_resets_only_one [of "playing 1500 1" 1010]
    song_started_resets_only_one [of "playing 1500 2" 1010]
  by (simp add: playing_def song_started_def run_eq)

section \<open>Destruction\<close>

text \<open>
  C9: \<open>destroy()\<close> never fails. Afterwards the tracker holds no source, the source it
  held is gone from the main loop, and none of the four handler ids it had connected is
  connected any more. Called on a tracker that holds no source it leaves the main loop,
  the tracker and the ticks as they are; called a second time it changes nothing at all.
  In a session, after \<open>destroy()\<close> no handler and no source of the tracker is left, and
  whatever happens afterwards emits no tick and arms nothing.
\<close>

theorem destroy_silences:
  "step Destroy w = Inr (destroy w) \<and>
   source_id (tr (destroy w)) = None \<and>
   (\<forall>sid. source_id (tr w) = Some sid \<longrightarrow> sid \<notin> source ` set (sources (ml (destroy w)))) \<and>
   (\<forall>hid \<in> set (sigs (tr w)). hid \<notin> fst ` set (handlers (pl (destroy w)))) \<and>
   (source_id (tr w) = None \<longrightarrow>
      ml (destroy w) = ml w \<and> tr (destroy w) = tr w \<and> ticks (destroy w) = ticks w) \<and>
   destroy (destroy w) = destroy w \<and>
   (\<exists>u u'. session pos psd (pre @ [Destroy]) = Inr u \<and>
      handlers (pl u) = [] \<and> sources (ml u) = [] \<and> source_id (tr u) = None \<and>
      session pos psd (pre @ Destroy # evs) = Inr u' \<and>
      ticks u' = ticks u \<and> armed (ml u') = armed (ml u) \<and>
      handlers (pl u') = [] \<and> sources (ml u') = [])"
proof (intro conjI)
  show "step Destroy w = Inr (destroy w)"
    by (simp add: step_def)
  show "source_id (tr (destroy w)) = None"
    by (simp add: destroy_def disable_def Let_def split: option.splits)
  show "\<forall>sid. source_id (tr w) = Some sid \<longrightarrow>
      sid \<notin> source ` set (sources (ml (destroy w)))"
    by (auto simp: destroy_def disable_def source_remove_def Let_def)
  show "\<forall>hid \<in> set (sigs (tr w)). hid \<notin> fst ` set (handlers (pl (destroy w)))"
    by (auto simp: destroy_def disable_def fold_disconnect Let_def split: option.splits)
  show "source_id (tr w) = None \<longrightarrow>
      ml (destroy w) = ml w \<and> tr (destroy w) = tr w \<and> ticks (destroy w) = ticks w"
    by (simp add: destroy_def disable_def Let_def)
  show "destroy (destroy w) = destroy w"
    by (cases "source_id (tr w)")
      (simp_all add: destroy_def disable_def fold_disconnect Let_def)
  obtain w0 where w0: "session pos psd pre = Inr w0" "wf w0"
    using wf_session by blast
  obtain u where u: "step Destroy w0 = Inr u" "detached u"
    using wf_destroy [OF w0(2)] by blast
  have s1: "session pos psd (pre @ [Destroy]) = Inr u"
    by (simp add: session_append w0(1) u(1))
  obtain u' where u': "steps evs u = Inr u'" "detached u'" "ticks u' = ticks u"
      "armed (ml u') = armed (ml u)"
    using detached_steps [OF u(2)] by blast
  have s2: "session pos psd (pre @ Destroy # evs) = Inr u'"
    by (simp add: session_append w0(1) u(1) u'(1))
  have "handlers (pl u) = []" "sources (ml u) = []" "source_id (tr u) = None"
      "handlers (pl u') = []" "sources (ml u') = []"
    using u(2) u'(2) by (simp_all add: detached_def)
  with s1 s2 u'(3,4)
  show "\<exists>u u'. session pos psd (pre @ [Destroy]) = Inr u \<and>
      handlers (pl u) = [] \<and> sources (ml u) = [] \<and> source_id (tr u) = None \<and>
      session pos psd (pre @ Destroy # evs) = Inr u' \<and>
      ticks u' = ticks u \<and> armed (ml u') = armed (ml u) \<and>
      handlers (pl u') = [] \<and> sources (ml u') = []"
    by (intro exI [of _ u] exI [of _ u'] conjI)
qed

theorem destroy_silences_witness:
  "source_id (tr (playing 1005 0)) = Some 1 \<and>
   sources (ml (destroy (playing 1005 0))) = [] \<and>
   handlers (pl (destroy (playing 1005 0))) = [] \<and>
   destroy (destroy (playing 1005 0)) = destroy (playing 1005 0) \<and>
   (\<exists>u. session 0 True [Destroy] = Inr u \<and> sources (ml u) = [] \<and> armed (ml u) = [] \<and>
      handlers (pl u) = [] \<and>
      (\<exists>u'. steps [Destroy, Unpause, Position 5000, Fire 1, SeekTo 9000] u = Inr u' \<and>
         ticks u' = [] \<and> armed (ml u') = []))"
  using destroy_silences [of "playing 1005 0" 0 True "[]" "[]"]
  by (simp add: playing_def destroy_def disable_def source_remove_def disconnect_def four_def
      session_eq step_def emit_none dispatch_def)

section \<open>The intervals handed to the main loop\<close>

text \<open>
  C10: the two places that arm a source, \<open>__enable\<close> and \<open>__run\<close>, pass
  \<open>1010 - position mod 1000\<close> for the position they have just read, or arm nothing.
  Every session succeeds, every interval it has handed to \<open>timeout_add\<close> lies between
  11 and 1010 and so is positive, and whatever happens next arms at most one source,
  again with \<open>1010 - position mod 1000\<close> for the position the player reports then.
\<close>

theorem armed_intervals_in_range:
  "(\<exists>w'. enable w = Inr w' \<and>
      (armed (ml w') = armed (ml w) \<or>
       armed (ml w') = armed (ml w) @ [1010 - position (pl w) mod 1000])) \<and>
   (\<exists>keep w'. run last_interval w = Inr (keep, w') \<and>
      (armed (ml w') = armed (ml w) \<or>
       armed (ml w') = armed (ml w) @ [1010 - position (pl w) mod 1000])) \<and>
   (\<exists>v. session pos psd evs = Inr v \<and>
      (\<forall>iv \<in> set (armed (ml v)). 11 \<le> iv \<and> iv \<le> 1010 \<and> 0 < iv) \<and>
      (\<forall>t \<in> set (sources (ml v)). interval t \<in> set (armed (ml v))) \<and>
      (\<forall>ev. \<exists>v'. step ev v = Inr v' \<and>
         (armed (ml v') = armed (ml v) \<or>
          armed (ml v') = armed (ml v) @ [1010 - position (pl v) mod 1000])))"
proof -
  obtain v where v: "session pos psd evs = Inr v" "wf v"
    using wf_session by blast
  have a: "\<forall>iv \<in> set (armed (ml v)). 11 \<le> iv \<and> iv \<le> 1010 \<and> 0 < iv"
    using v(2) by (auto simp: wf_def)
  have e: "\<exists>v'. step ev v = Inr v' \<and>
         (armed (ml v') = armed (ml v) \<or>
          armed (ml v') = armed (ml v) @ [1010 - position (pl v) mod 1000])" for ev
    using wf_step [OF v(2), of ev] by blast
  have "\<forall>t \<in> set (sources (ml u)). interval t \<in> set (armed (ml u))"
    if "session pos psd xs = Inr u" for xs u
    using that
  proof (induction xs arbitrary: u rule: rev_induct)
    case Nil
    then show ?case
      unfolding session_def init_eq by (auto simp: new_loop_def split: if_splits)
  next
    case (snoc x xs)
    obtain u0 where u0: "session pos psd xs = Inr u0" "wf u0"
      using wf_session by blast
    have st: "step x u0 = Inr u"
      using snoc.prems by (simp add: session_append u0(1) split: sum.splits)
    have ih: "\<forall>t \<in> set (sources (ml u0)). interval t \<in> set (armed (ml u0))"
      by (rule snoc.IH [OF u0(1)])
    have "armed (ml u) = armed (ml u0) \<and> next_source (ml u) = next_source (ml u0) \<and>
        set (sources (ml u)) \<subseteq> set (sources (ml u0)) \<or>
      armed (ml u) = armed (ml u0) @ [1010 - position (pl u0) mod 1000] \<and>
      next_source (ml u) = Suc (next_source (ml u0)) \<and>
      source_id (tr u) = Some (next_source (ml u0)) \<and>
      sources (ml u) = [\<lparr>source = next_source (ml u0),
                         interval = 1010 - position (pl u0) mod 1000,
                         user_data = 1010 - position (pl u0) mod 1000\<rparr>]"
      using wf_step [OF u0(2), of x] by (simp add: st)
    then show ?case
    proof (elim disjE conjE)
      assume "armed (ml u) = armed (ml u0)"
        and "set (sources (ml u)) \<subseteq> set (sources (ml u0))"
      with ih show ?thesis by auto
    next
      assume "armed (ml u) = armed (ml u0) @ [1010 - position (pl u0) mod 1000]"
        and "sources (ml u) = [\<lparr>source = next_source (ml u0),
                         interval = 1010 - position (pl u0) mod 1000,
                         user_data = 1010 - position (pl u0) mod 1000\<rparr>]"
      then show ?thesis by simp
    qed
  qed
  then have b: "\<forall>t \<in> set (sources (ml v)). interval t \<in> set (armed (ml v))"
    using v(1) by blast
  have "\<exists>w'. enable w = Inr w' \<and>
      (armed (ml w') = armed (ml w) \<or>
       armed (ml w') = armed (ml w) @ [1010 - position (pl w) mod 1000])"
    by (simp add: enable_eq)
  moreover have "\<exists>keep w'. run last_interval w = Inr (keep, w') \<and>
      (armed (ml w') = armed (ml w) \<or>
       armed (ml w') = armed (ml w) @ [1010 - position (pl w) mod 1000])"
    by (simp add: run_eq)
  moreover have "\<exists>v. session pos psd evs = Inr v \<and>
      (\<forall>iv \<in> set (armed (ml v)). 11 \<le> iv \<and> iv \<le> 1010 \<and> 0 < iv) \<and>
      (\<forall>t \<in> set (sources (ml v)). interval t \<in> set (armed (ml v))) \<and>
      (\<forall>ev. \<exists>v'. step ev v = Inr v' \<and>
         (armed (ml v') = armed (ml v) \<or>
          armed (ml v') = armed (ml v) @ [1010 - position (pl v) mod 1000]))"
  proof (rule exI [of _ v], intro conjI allI)
    show "session pos psd evs = Inr v" by (rule v(1))
    show "\<forall>iv \<in> set (armed (ml v)). 11 \<le> iv \<and> iv \<le> 1010 \<and> 0 < iv" by (rule a)
    show "\<forall>t \<in> set (sources (ml v)). interval t \<in> set (armed (ml v))" by (rule b)
    show "\<exists>v'. step ev v = Inr v' \<and>
         (armed (ml v') = armed (ml v) \<or>
          armed (ml v') = armed (ml v) @ [1010 - position (pl v) mod 1000])" for ev
      by (rule e)
  qed
  ultimately show ?thesis by (intro conjI)
qed

theorem armed_intervals_in_range_witness:
  "\<exists>v. session 0 False [Position 2999, Fire 1, Position 3000, Fire 2] = Inr v \<and>
     armed (ml v) = [1010, 11, 1010] \<and>
     (\<forall>iv \<in> set (armed (ml v)). 11 \<le> iv \<and> iv \<le> 1010 \<and> 0 < iv)"
proof -
  obtain v where v: "session 0 False [Position 2999, Fire 1, Position 3000, Fire 2] = Inr v"
      "\<forall>iv \<in> set (armed (ml v)). 11 \<le> iv \<and> iv \<le> 1010 \<and> 0 < iv"
    using armed_intervals_in_range
      [of "playing 0 0" 1010 0 False "[Position 2999, Fire 1, Position 3000, Fire 2]"]
    by (elim conjE exE)
  have "\<exists>u. session 0 False [Position 2999, Fire 1, Position 3000, Fire 2] = Inr u \<and>
      armed (ml u) = [1010, 11, 1010]"
    by (simp add: session_def init_eq step_def dispatch_def run_eq source_remove_def)
  with v(1) have "armed (ml v) = [1010, 11, 1010]" by simp
  with v show ?thesis by (intro exI [of _ v] conjI)
qed

end
